theory Spec2Isabelle
  imports Complex_Main
begin

section \<open>JavaScript values\<close>

text \<open>
  The loader of \<^verbatim>\<open>src/loader.js\<close> is untyped JavaScript: \<^verbatim>\<open>load\<close> inspects its argument
  with \<^verbatim>\<open>=== undefined\<close> and \<^verbatim>\<open>Array.isArray\<close>, the constructor's hint and the
  progress callback are tested for truthiness. Values are therefore a datatype.
  A number is a double; the model keeps a finite number as an exact rational and has
  the three special values apart. \<open>Obj n\<close> is an object without an \<^verbatim>\<open>indexOf\<close>
  method (an ArrayBuffer, a Document, a parsed JSON object), \<open>Fn n\<close> a function;
  \<open>n\<close> is the identity. \<open>ErrorV m\<close> is \<^verbatim>\<open>new Error(m)\<close>, \<open>TypeErrorV\<close> a TypeError
  raised by the language itself, \<open>SyntaxErrorV\<close> the SyntaxError of a parser.
\<close>

datatype jsnum = Finite rat | PosInf | NegInf | NaN

datatype jsval =
    Undefined
  | Null
  | Bool bool
  | Number jsnum
  | Str string
  | Arr "jsval list"
  | Obj nat
  | Fn nat
  | ErrorV string
  | TypeErrorV
  | SyntaxErrorV

fun truthy :: "jsval \<Rightarrow> bool" where
  "truthy Undefined = False"
| "truthy Null = False"
| "truthy (Bool b) = b"
| "truthy (Number (Finite q)) = (q \<noteq> 0)"
| "truthy (Number NaN) = False"
| "truthy (Number PosInf) = True"
| "truthy (Number NegInf) = True"
| "truthy (Str s) = (s \<noteq> [])"
| "truthy (Arr xs) = True"
| "truthy (Obj n) = True"
| "truthy (Fn n) = True"
| "truthy (ErrorV m) = True"
| "truthy TypeErrorV = True"
| "truthy SyntaxErrorV = True"

fun isArray :: "jsval \<Rightarrow> bool" where
  "isArray (Arr xs) = True"
| "isArray v = False"

text \<open>
  \<^verbatim>\<open>a / b\<close> on two unsigned byte counts, as the progress listener computes it: a zero
  divisor gives \<^verbatim>\<open>NaN\<close> (0/0) or \<^verbatim>\<open>Infinity\<close>, never an exception. The finite quotient
  is kept exact; rounding to the nearest double is monotone and 0 and 1 are doubles, so
  bounds by 0 and 1 are the same for the rounded value.
\<close>

definition js_div :: "nat \<Rightarrow> nat \<Rightarrow> jsnum" where
  "js_div a b =
     (if b = 0 then (if a = 0 then NaN else PosInf)
      else Finite (of_nat a / of_nat b))"

section \<open>Strings: \<^verbatim>\<open>String.prototype.indexOf\<close>\<close>

primrec startsWith :: "string \<Rightarrow> string \<Rightarrow> bool" where
  "startsWith s [] = True"
| "startsWith s (p # ps) = (case s of [] \<Rightarrow> False | c # cs \<Rightarrow> c = p \<and> startsWith cs ps)"

text \<open>
  \<open>indexFrom pat s k\<close> scans \<open>s\<close>, whose first character has position \<open>k\<close>, for the
  first occurrence of \<open>pat\<close>; \<open>-1\<close> when there is none.
\<close>

primrec indexFrom :: "string \<Rightarrow> string \<Rightarrow> nat \<Rightarrow> int" where
  "indexFrom pat [] k = (if pat = [] then int k else - 1)"
| "indexFrom pat (c # cs) k =
     (if startsWith (c # cs) pat then int k else indexFrom pat cs (Suc k))"

text \<open>
  The position argument of \<^verbatim>\<open>indexOf\<close> goes through ToIntegerOrInfinity and is clamped
  to the string: \<^verbatim>\<open>NaN\<close> becomes 0, a negative number 0, a number past the end the
  length.
\<close>

fun toPosition :: "jsnum \<Rightarrow> nat \<Rightarrow> nat" where
  "toPosition NaN len = 0"
| "toPosition NegInf len = 0"
| "toPosition PosInf len = len"
| "toPosition (Finite q) len = min len (nat \<lfloor>q\<rfloor>)"

definition indexOf :: "string \<Rightarrow> string \<Rightarrow> jsnum \<Rightarrow> int" where
  "indexOf s pat pos =
     (let k = toPosition pos (length s) in indexFrom pat (drop k s) k)"

definition endsWith :: "string \<Rightarrow> string \<Rightarrow> bool" where
  "endsWith s suffix =
     (length suffix \<le> length s \<and> drop (length s - length suffix) s = suffix)"

section \<open>The loader object\<close>

text \<open>
  \<^verbatim>\<open>class Loader\<close> has two fields, both set by the constructor; \<^verbatim>\<open>onProgress\<close> and
  the \<^verbatim>\<open>progressCallback\<close> accessor pair read and write \<open>progressCb\<close>.
\<close>

record Loader =
  responseType :: jsval
  progressCb :: jsval

definition constructor :: "jsval \<Rightarrow> Loader" where
  "constructor rt = \<lparr>responseType = rt, progressCb = Undefined\<rparr>"

definition onProgress :: "Loader \<Rightarrow> jsval \<Rightarrow> Loader" where
  "onProgress this callback = this\<lparr>progressCb := callback\<rparr>"

definition get_progressCallback :: "Loader \<Rightarrow> jsval" where
  "get_progressCallback this = progressCb this"

definition set_progressCallback :: "Loader \<Rightarrow> jsval \<Rightarrow> Loader" where
  "set_progressCallback this callback = this\<lparr>progressCb := callback\<rparr>"

text \<open>
  In \<^verbatim>\<open>fileLoadingRequest\<close> the search for the suffix starts at
  \<^verbatim>\<open>this.length - suffix.length\<close>. The enclosing function is an arrow function, so
  \<^verbatim>\<open>this\<close> is the loader, which has no \<^verbatim>\<open>length\<close> property: the expression is
  \<^verbatim>\<open>undefined - 5\<close>, that is \<^verbatim>\<open>NaN\<close>, whatever the URL.
\<close>

definition this_length_minus :: "Loader \<Rightarrow> nat \<Rightarrow> jsnum" where
  "this_length_minus this n = NaN"

section \<open>Requests, promises and one fetch\<close>

text \<open>
  The transport object, with the properties the source reads or writes. \<open>listening\<close>
  says that the three listeners (load, progress, error) are attached, \<open>sent\<close> that
  \<^verbatim>\<open>send()\<close> was reached. \<open>index\<close> is a property the source adds to the object;
  \<open>status\<close>, \<open>statusText\<close> and \<open>response\<close> are written by the transport only:
  they are read-only attributes of an XMLHttpRequest.
\<close>

record XMLHttpRequest =
  url :: jsval
  index :: jsval
  request_responseType :: jsval
  listening :: bool
  sent :: bool
  status :: nat
  statusText :: string
  response :: jsval

definition new_XMLHttpRequest :: XMLHttpRequest where
  "new_XMLHttpRequest =
     \<lparr>url = Undefined, index = Undefined, request_responseType = Str [],
      listening = False, sent = False, status = 0, statusText = [], response = Str []\<rparr>"

datatype promise = Pending | Fulfilled jsval | Rejected jsval

text \<open>
  What running a piece of code did to the promise it belongs to: called \<^verbatim>\<open>resolve\<close>,
  called \<^verbatim>\<open>reject\<close>, or raised. A promise settles once; an exception that leaves an
  event listener reaches neither \<^verbatim>\<open>resolve\<close> nor \<^verbatim>\<open>reject\<close>.
\<close>

datatype action = Resolve jsval | Reject jsval | Throw jsval

fun settle :: "promise \<Rightarrow> action \<Rightarrow> promise" where
  "settle Pending (Resolve v) = Fulfilled v"
| "settle Pending (Reject e) = Rejected e"
| "settle Pending (Throw e) = Pending"
| "settle p a = p"

record fetch =
  request :: XMLHttpRequest
  promise :: promise

definition suffix :: string where
  "suffix = ''.json''"

text \<open>
  \<^verbatim>\<open>url.indexOf(suffix, pos)\<close> on an arbitrary value: the string method on a string,
  \<^verbatim>\<open>Array.prototype.indexOf\<close> (strict equality with the suffix, element by element) on
  an array, and a TypeError on every other value, which has no such method
  (\<^verbatim>\<open>undefined\<close> and \<^verbatim>\<open>null\<close> have no properties at all).
\<close>

primrec arrayIndexFrom :: "jsval \<Rightarrow> jsval list \<Rightarrow> nat \<Rightarrow> int" where
  "arrayIndexFrom x [] k = - 1"
| "arrayIndexFrom x (y # ys) k = (if y = x then int k else arrayIndexFrom x ys (Suc k))"

fun url_indexOf :: "jsval \<Rightarrow> string \<Rightarrow> jsnum \<Rightarrow> jsval + int" where
  "url_indexOf (Str s) pat pos = Inr (indexOf s pat pos)"
| "url_indexOf (Arr xs) pat pos =
     Inr (let k = toPosition pos (length xs) in arrayIndexFrom (Str pat) (drop k xs) k)"
| "url_indexOf v pat pos = Inl TypeErrorV"

text \<open>
  \<^verbatim>\<open>fileLoadingRequest(url, index)\<close>. The body runs inside the promise's executor, so
  an exception there rejects the promise instead of reaching the caller; it happens at
  \<^verbatim>\<open>url.indexOf\<close>, before the listeners are attached and before \<^verbatim>\<open>send()\<close>.
  The transport's own \<^verbatim>\<open>open\<close> and \<^verbatim>\<open>send\<close> are taken not to raise.
\<close>

definition fileLoadingRequest :: "Loader \<Rightarrow> jsval \<Rightarrow> jsval \<Rightarrow> fetch" where
  "fileLoadingRequest this u i =
     (let request = new_XMLHttpRequest\<lparr>url := u, index := i\<rparr> in
      if truthy (responseType this) then
        \<lparr>request = request\<lparr>request_responseType := responseType this,
                              listening := True, sent := True\<rparr>,
         promise = Pending\<rparr>
      else
        (case url_indexOf u suffix (this_length_minus this (length suffix)) of
           Inl exn \<Rightarrow> \<lparr>request = request, promise = Rejected exn\<rparr>
         | Inr found \<Rightarrow>
             \<lparr>request = request\<lparr>request_responseType :=
                                   (if found \<noteq> - 1 then Str ''json'' else Str ''arraybuffer''),
                                 listening := True, sent := True\<rparr>,
              promise = Pending\<rparr>))"

subsection \<open>The three listeners\<close>

text \<open>
  The load listener is a \<^verbatim>\<open>function\<close>, so its \<^verbatim>\<open>this\<close> is the request. \<open>JSON_parse\<close> is
  the platform's \<^verbatim>\<open>JSON.parse\<close>: \<open>Inl\<close> is the exception it raises on a malformed
  document. The listener is not inside the executor: an exception leaves the listener
  and neither \<^verbatim>\<open>resolve\<close> nor \<^verbatim>\<open>reject\<close> is called. That is so when the parser
  raises, and also when it returns: the source is module code, hence strict, and
  \<^verbatim>\<open>response\<close> is an accessor without setter, so the assignment
  \<^verbatim>\<open>request.response = JSON.parse(request.response)\<close> raises a TypeError.
\<close>

definition load_listener :: "(string \<Rightarrow> jsval + jsval) \<Rightarrow> XMLHttpRequest \<Rightarrow> action" where
  "load_listener JSON_parse req =
     (if status req = 200 \<or> status req = 304 \<or> status req = 0 then
        (case response req of
           Str s \<Rightarrow>
             if request_responseType req = Str ''json'' then
               (case JSON_parse s of
                  Inl exn \<Rightarrow> Throw exn
                | Inr v \<Rightarrow> Throw TypeErrorV)
             else Resolve (Str s)
         | v \<Rightarrow> Resolve v)
      else Reject (ErrorV (statusText req)))"

definition error_listener :: action where
  "error_listener = Reject (ErrorV ''Network Error'')"

text \<open>
  An object literal: its properties by name, in the order they were added. Reading a
  name that is not there gives \<^verbatim>\<open>undefined\<close>; \<open>map_of\<close> gives \<open>None\<close>.
\<close>

type_synonym object = "(string \<times> jsval) list"

text \<open>
  What the progress listener does: nothing, a call of a function with the object it
  built, or a call of a value that is not a function, which raises a TypeError before
  anything is called.
\<close>

datatype invocation = NoCall | Call jsval object | CallRaises jsval

text \<open>
  The progress listener is an arrow function: it reads the callback from the loader
  when the event fires.
\<close>

definition progress_listener :: "Loader \<Rightarrow> jsval \<Rightarrow> nat \<Rightarrow> nat \<Rightarrow> invocation" where
  "progress_listener this i evt_loaded evt_total =
     (if truthy (get_progressCallback this) then
        (let event = [(''value'', Number (js_div evt_loaded evt_total)),
                      (''loaded'', Number (Finite (of_nat evt_loaded))),
                      (''total'', Number (Finite (of_nat evt_total)))];
             event = (if i \<noteq> Undefined then event @ [(''index'', i)] else event)
         in (case get_progressCallback this of
               Fn n \<Rightarrow> Call (Fn n) event
             | v \<Rightarrow> CallRaises TypeErrorV))
      else NoCall)"

section \<open>\<^verbatim>\<open>Promise.all\<close>\<close>

text \<open>
  The platform's aggregation, after the language standard: an array of values with one
  slot per member, a count of the members not yet fulfilled, and the promise returned.
  A member's fulfilment fills its slot and, when it was the last, fulfils the result
  with the array; a member's rejection rejects the result. With no member the result is
  fulfilled with the empty array at once.
\<close>

record promise_all =
  all_values :: "jsval list"
  all_remaining :: nat
  all_result :: promise

definition resolveElement :: "nat \<Rightarrow> jsval \<Rightarrow> promise_all \<Rightarrow> promise_all" where
  "resolveElement i v a =
     (let vals = (all_values a)[i := v]; r = all_remaining a - 1 in
      a\<lparr>all_values := vals, all_remaining := r,
        all_result := (if r = 0 then settle (all_result a) (Resolve (Arr vals))
                       else all_result a)\<rparr>)"

definition rejectElement :: "jsval \<Rightarrow> promise_all \<Rightarrow> promise_all" where
  "rejectElement e a = a\<lparr>all_result := settle (all_result a) (Reject e)\<rparr>"

fun notify :: "nat \<Rightarrow> promise \<Rightarrow> promise_all \<Rightarrow> promise_all" where
  "notify i Pending a = a"
| "notify i (Fulfilled v) a = resolveElement i v a"
| "notify i (Rejected e) a = rejectElement e a"

text \<open>
  Members that are settled when \<^verbatim>\<open>Promise.all\<close> subscribes to them report in the order
  of subscription, which is the order of the array.
\<close>

fun subscribe :: "nat \<Rightarrow> promise list \<Rightarrow> promise_all \<Rightarrow> promise_all" where
  "subscribe i [] a = a"
| "subscribe i (p # ps) a = subscribe (Suc i) ps (notify i p a)"

definition Promise_all :: "promise list \<Rightarrow> promise_all" where
  "Promise_all ps =
     subscribe 0 ps
       \<lparr>all_values = replicate (length ps) Undefined, all_remaining = length ps,
        all_result = (if ps = [] then Fulfilled (Arr []) else Pending)\<rparr>"

section \<open>\<^verbatim>\<open>load\<close>, \<^verbatim>\<open>loadOne\<close>, \<^verbatim>\<open>loadAll\<close>\<close>

definition loadOne :: "Loader \<Rightarrow> jsval \<Rightarrow> fetch" where
  "loadOne this fileURL = fileLoadingRequest this fileURL Undefined"

text \<open>\<^verbatim>\<open>Array.prototype.map\<close> passes each element with its position, a number.\<close>

definition loadAll :: "Loader \<Rightarrow> jsval list \<Rightarrow> fetch list \<times> promise_all" where
  "loadAll this fileURLs =
     (let promises =
            map (\<lambda>(fileURL, i). fileLoadingRequest this fileURL (Number (Finite (of_nat i))))
                (zip fileURLs [0..<length fileURLs])
      in (promises, Promise_all (map promise promises)))"

text \<open>
  What \<^verbatim>\<open>load\<close> hands back is a promise, together with the requests behind it: one
  fetch, or the members of a batch with their aggregation. \<open>Inl\<close> is the exception
  thrown to the caller.
\<close>

datatype dispatched = One fetch | All "fetch list" promise_all

definition load :: "Loader \<Rightarrow> jsval \<Rightarrow> jsval + dispatched" where
  "load this fileURLs =
     (if fileURLs = Undefined then
        Inl (ErrorV ''Invalid fileURLs parameter: load method needs at least a url to load'')
      else
        (case fileURLs of
           Arr xs \<Rightarrow> (case loadAll this xs of (fs, a) \<Rightarrow> Inr (All fs a))
         | v \<Rightarrow> Inr (One (loadOne this v))))"

section \<open>The loader and its requests over time\<close>

text \<open>
  Everything after \<^verbatim>\<open>load\<close> returns happens in events: the transport fires load, error
  and progress on a request, and the program registers progress callbacks. The state
  holds the loader, the fetches in the order of dispatch, the aggregation of a batch,
  the calls made to progress callbacks (the function called and its argument, oldest
  first) and the exceptions that left a listener. What a callback does when it is
  called belongs to the program around the loader and is not part of the state.
\<close>

record system =
  loader :: Loader
  fetches :: "fetch list"
  batch :: "promise_all option"
  calls :: "(jsval \<times> object) list"
  uncaught :: "jsval list"

text \<open>
  \<open>LoadEvent i st txt resp\<close>: the transport completes request \<open>i\<close> with status
  \<open>st\<close>, status text \<open>txt\<close> and response \<open>resp\<close>, and fires \<^verbatim>\<open>load\<close>.
  \<open>ErrorEvent i\<close>: it fires \<^verbatim>\<open>error\<close> on request \<open>i\<close>.
  \<open>ProgressEvent i loaded total\<close>: it fires \<^verbatim>\<open>progress\<close> with the two byte counts.
  \<open>CallOnProgress c\<close> is the call \<^verbatim>\<open>onProgress(c)\<close>, \<open>AssignProgressCallback c\<close>
  the assignment \<^verbatim>\<open>progressCallback = c\<close>.
\<close>

datatype event =
    LoadEvent nat nat string jsval
  | ErrorEvent nat
  | ProgressEvent nat nat nat
  | CallOnProgress jsval
  | AssignProgressCallback jsval

definition start :: "Loader \<Rightarrow> dispatched \<Rightarrow> system" where
  "start this d =
     (case d of
        One f \<Rightarrow> \<lparr>loader = this, fetches = [f], batch = None, calls = [], uncaught = []\<rparr>
      | All fs a \<Rightarrow> \<lparr>loader = this, fetches = fs, batch = Some a, calls = [], uncaught = []\<rparr>)"


text \<open>
  A listener's action reaches the promise of its fetch; when that settles the promise,
  the aggregation of the batch is told. An exception is recorded as uncaught. \<open>req\<close>
  is the request as the transport left it when it fired the event.
\<close>

definition deliver :: "nat \<Rightarrow> action \<Rightarrow> XMLHttpRequest \<Rightarrow> system \<Rightarrow> system" where
  "deliver i act req s =
     (let f = fetches s ! i; p = settle (promise f) act in
      s\<lparr>fetches := (fetches s)[i := \<lparr>request = req, promise = p\<rparr>],
        batch := (if promise f = Pending then map_option (notify i p) (batch s) else batch s),
        uncaught := (case act of Throw e \<Rightarrow> uncaught s @ [e] | _ \<Rightarrow> uncaught s)\<rparr>)"

definition hears :: "system \<Rightarrow> nat \<Rightarrow> bool" where
  "hears s i = (i < length (fetches s) \<and> listening (request (fetches s ! i)))"

fun step :: "(string \<Rightarrow> jsval + jsval) \<Rightarrow> system \<Rightarrow> event \<Rightarrow> system" where
  "step JSON_parse s (LoadEvent i st txt resp) =
     (if hears s i then
        (let req = (request (fetches s ! i))\<lparr>status := st, statusText := txt, response := resp\<rparr>
         in deliver i (load_listener JSON_parse req) req s)
      else s)"
| "step JSON_parse s (ErrorEvent i) =
     (if hears s i then deliver i error_listener (request (fetches s ! i)) s else s)"
| "step JSON_parse s (ProgressEvent i evt_loaded evt_total) =
     (if hears s i then
        (case progress_listener (loader s) (index (request (fetches s ! i))) evt_loaded evt_total of
           NoCall \<Rightarrow> s
         | Call f event \<Rightarrow> s\<lparr>calls := calls s @ [(f, event)]\<rparr>
         | CallRaises e \<Rightarrow> s\<lparr>uncaught := uncaught s @ [e]\<rparr>)
      else s)"
| "step JSON_parse s (CallOnProgress callback) = s\<lparr>loader := onProgress (loader s) callback\<rparr>"
| "step JSON_parse s (AssignProgressCallback callback) =
     s\<lparr>loader := set_progressCallback (loader s) callback\<rparr>"

definition run :: "(string \<Rightarrow> jsval + jsval) \<Rightarrow> system \<Rightarrow> event list \<Rightarrow> system" where
  "run JSON_parse s evs = foldl (step JSON_parse) s evs"

text \<open>
  An instance of the platform's parser, to run the model on concrete inputs: it knows
  two documents and raises on every other text.
\<close>

definition sample_parse :: "string \<Rightarrow> jsval + jsval" where
  "sample_parse s =
     (if s = ''null'' then Inr Null
      else if s = ''[]'' then Inr (Arr [])
      else Inl SyntaxErrorV)"


section \<open>What the aggregation knows of its members\<close>

text \<open>
  The relation between the promises of the members of a batch and the state of their
  aggregation, kept by every event: the count is the number of members not fulfilled,
  every fulfilled member's value is in its slot, the result is pending only while no
  member is rejected and some member is not fulfilled, it is fulfilled only with the
  array of slots once every member is fulfilled, and it is rejected only with the
  reason of a rejected member.
\<close>

definition unfulfilled :: "promise list \<Rightarrow> nat" where
  "unfulfilled ps = length (filter (\<lambda>p. \<forall>v. p \<noteq> Fulfilled v) ps)"

definition agrees :: "promise list \<Rightarrow> promise_all \<Rightarrow> bool" where
  "agrees ps a \<longleftrightarrow>
     length (all_values a) = length ps
     \<and> all_remaining a = unfulfilled ps
     \<and> (\<forall>i<length ps. \<forall>v. ps ! i = Fulfilled v \<longrightarrow> all_values a ! i = v)
     \<and> (case all_result a of
          Pending \<Rightarrow> (\<forall>i<length ps. \<forall>e. ps ! i \<noteq> Rejected e) \<and> 0 < all_remaining a
        | Fulfilled w \<Rightarrow> w = Arr (all_values a) \<and> all_remaining a = 0
        | Rejected e \<Rightarrow> (\<exists>i<length ps. ps ! i = Rejected e))"

text \<open>The part of a fetch that no event changes.\<close>

definition shape :: "fetch \<Rightarrow> jsval \<times> jsval \<times> jsval \<times> bool \<times> bool" where
  "shape f = (url (request f), index (request f), request_responseType (request f),
              listening (request f), sent (request f))"

definition batch_ok :: "system \<Rightarrow> bool" where
  "batch_ok s \<longleftrightarrow> (\<exists>a. batch s = Some a \<and> agrees (map promise (fetches s)) a)"

section \<open>Notions used to state the properties\<close>

text \<open>
  An event that registers a progress callback; the object a function in the slot
  receives for a notification on request \<open>i\<close>, with the quotient written out; and the
  objects for the notifications of a sequence of events that reach a listener, in order.
\<close>

fun registers :: "event \<Rightarrow> bool" where
  "registers (CallOnProgress c) = True"
| "registers (AssignProgressCallback c) = True"
| "registers e = False"

definition record_for :: "system \<Rightarrow> nat \<Rightarrow> nat \<Rightarrow> nat \<Rightarrow> object" where
  "record_for s i evt_loaded evt_total =
     [(''value'', Number (if evt_total = 0 then (if evt_loaded = 0 then NaN else PosInf)
                          else Finite (of_nat evt_loaded / of_nat evt_total))),
      (''loaded'', Number (Finite (of_nat evt_loaded))),
      (''total'', Number (Finite (of_nat evt_total)))]
     @ (if index (request (fetches s ! i)) = Undefined then []
        else [(''index'', index (request (fetches s ! i)))])"

fun notifications :: "system \<Rightarrow> event list \<Rightarrow> object list" where
  "notifications s [] = []"
| "notifications s (ProgressEvent i evt_loaded evt_total # evs) =
     (if hears s i then record_for s i evt_loaded evt_total # notifications s evs
      else notifications s evs)"
| "notifications s (e # evs) = notifications s evs"




section \<open>Properties\<close>

subsection \<open>The invocation error\<close>

text \<open>
  C4. \<^verbatim>\<open>load(undefined)\<close> throws to its caller: the result is the thrown error, not a
  promise, and no request exists, since a request is only ever part of a dispatched
  result.
\<close>

theorem load_undefined_throws:
  "load this Undefined =
     Inl (ErrorV ''Invalid fileURLs parameter: load method needs at least a url to load'')
   \<and> (\<forall>d. load this Undefined \<noteq> Inr d)"
  by (simp add: load_def)

lemma load_non_array:
  assumes "v \<noteq> Undefined" and "\<not> isArray v"
  shows "load this v = Inr (One (loadOne this v))"
  using assms by (cases v) (simp_all add: load_def)




subsection \<open>The progress-callback slot\<close>

text \<open>
  C7. The method \<^verbatim>\<open>onProgress\<close> and the setter of \<^verbatim>\<open>progressCallback\<close> write the same
  slot: they yield the same loader, the getter returns what was registered last by
  either, and a registration leaves no trace of the one before it.
\<close>

theorem progress_callback_single_slot:
  "onProgress this c = set_progressCallback this c
   \<and> get_progressCallback (onProgress this c) = c
   \<and> get_progressCallback (set_progressCallback this c) = c
   \<and> onProgress (onProgress this b) c = onProgress this c
   \<and> onProgress (set_progressCallback this b) c = onProgress this c
   \<and> set_progressCallback (onProgress this b) c = set_progressCallback this c
   \<and> set_progressCallback (set_progressCallback this b) c = set_progressCallback this c"
  by (simp add: onProgress_def set_progressCallback_def get_progressCallback_def)

subsection \<open>The requested content-type\<close>

lemma startsWith_append: "startsWith (pat @ r) pat"
  by (induction pat) simp_all

lemma indexFrom_found: "indexFrom pat (xs @ pat @ r) k \<noteq> - 1"
proof (induction xs arbitrary: k)
  case Nil
  have "startsWith (pat @ r) pat" by (rule startsWith_append)
  then show ?case by (cases "pat @ r") simp_all
next
  case (Cons x xs)
  then show ?case by simp
qed

lemma endsWith_split: "endsWith s p \<Longrightarrow> \<exists>xs. s = xs @ p"
  unfolding endsWith_def by (metis append_take_drop_id)

text \<open>Without a hint, a URL that ends in the suffix is requested as \<^verbatim>\<open>json\<close>.\<close>

lemma json_suffix_requests_json:
  assumes "\<not> truthy (responseType this)" and "endsWith s suffix"
  shows "request_responseType (request (fileLoadingRequest this (Str s) i)) = Str ''json''"
proof -
  from assms(2) obtain xs where "s = xs @ suffix"
    using endsWith_split by blast
  then have "indexFrom suffix s 0 \<noteq> - 1"
    using indexFrom_found [of suffix xs "[]" 0] by simp
  then show ?thesis
    using assms(1) by (simp add: fileLoadingRequest_def this_length_minus_def indexOf_def)
qed

text \<open>
  C2. The search position \<^verbatim>\<open>this.length - suffix.length\<close> is \<^verbatim>\<open>NaN\<close>, so the test asks
  whether the URL contains \<^verbatim>\<open>.json\<close> anywhere: a loader without hint requests \<^verbatim>\<open>json\<close>,
  not \<^verbatim>\<open>arraybuffer\<close>, for a URL that has the suffix before a query string.
\<close>

theorem json_requested_for_suffix_inside_url:
  "\<not> endsWith ''data.json?v=2'' suffix
   \<and> request_responseType
        (request (fileLoadingRequest (constructor Undefined) (Str ''data.json?v=2'') Undefined))
      = Str ''json''"
  by (simp add: endsWith_def fileLoadingRequest_def constructor_def suffix_def
      this_length_minus_def indexOf_def new_XMLHttpRequest_def)

subsection \<open>The fraction of a progress event\<close>




subsection \<open>A batch and its aggregation\<close>

lemma unfulfilled_Nil [simp]: "unfulfilled [] = 0"
  by (simp add: unfulfilled_def)

lemma unfulfilled_Cons:
  "unfulfilled (p # ps) = (case p of Fulfilled v \<Rightarrow> unfulfilled ps | _ \<Rightarrow> Suc (unfulfilled ps))"
  by (cases p) (simp_all add: unfulfilled_def)

lemma unfulfilled_fulfil:
  "i < length ps \<Longrightarrow> ps ! i = Pending \<Longrightarrow> Suc (unfulfilled (ps[i := Fulfilled v])) = unfulfilled ps"
proof (induction ps arbitrary: i)
  case Nil
  then show ?case by simp
next
  case (Cons p ps)
  then show ?case
    by (cases i) (auto simp: unfulfilled_Cons split: promise.splits)
qed

lemma unfulfilled_reject:
  "i < length ps \<Longrightarrow> ps ! i = Pending \<Longrightarrow> unfulfilled (ps[i := Rejected e]) = unfulfilled ps"
proof (induction ps arbitrary: i)
  case Nil
  then show ?case by simp
next
  case (Cons p ps)
  then show ?case
    by (cases i) (auto simp: unfulfilled_Cons split: promise.splits)
qed

lemma unfulfilled_zero:
  "unfulfilled ps = 0 \<longleftrightarrow> (\<forall>i<length ps. \<exists>v. ps ! i = Fulfilled v)"
  by (auto simp: unfulfilled_def filter_empty_conv set_conv_nth)

lemma unfulfilled_replicate: "unfulfilled (replicate n Pending) = n"
  by (induction n) (simp_all add: unfulfilled_Cons)

lemma agreesI:
  assumes "length (all_values a) = length ps" and "all_remaining a = unfulfilled ps"
    and "\<And>i v. i < length ps \<Longrightarrow> ps ! i = Fulfilled v \<Longrightarrow> all_values a ! i = v"
    and "all_result a = Pending \<Longrightarrow> (\<forall>i<length ps. \<forall>e. ps ! i \<noteq> Rejected e) \<and> 0 < all_remaining a"
    and "\<And>w. all_result a = Fulfilled w \<Longrightarrow> w = Arr (all_values a) \<and> all_remaining a = 0"
    and "\<And>e. all_result a = Rejected e \<Longrightarrow> \<exists>i<length ps. ps ! i = Rejected e"
  shows "agrees ps a"
  using assms unfolding agrees_def by (cases "all_result a") simp_all

lemma agrees_pending_member:
  assumes "agrees ps a" and "i < length ps" and "ps ! i = Pending"
  shows "0 < all_remaining a" and "all_result a \<noteq> Fulfilled w"
proof -
  have "unfulfilled ps \<noteq> 0"
    using assms(2,3) unfulfilled_zero [of ps] by fastforce
  then show "0 < all_remaining a"
    using assms(1) by (simp add: agrees_def)
  then show "all_result a \<noteq> Fulfilled w"
    using assms(1) by (auto simp: agrees_def)
qed

lemma rejected_member_kept:
  assumes "j < length ps" and "ps ! j = Rejected e" and "ps ! i = Pending"
  shows "\<exists>k<length (ps[i := p]). ps[i := p] ! k = Rejected e"
proof -
  have "j \<noteq> i" using assms(2,3) by auto
  then have "ps[i := p] ! j = Rejected e" using assms(1,2) by simp
  then show ?thesis using assms(1) by (intro exI [of _ j]) simp
qed

lemma resolveElement_remaining: "all_remaining (resolveElement i v a) = all_remaining a - 1"
  by (simp add: resolveElement_def Let_def)

lemma resolveElement_values: "all_values (resolveElement i v a) = (all_values a)[i := v]"
  by (simp add: resolveElement_def Let_def)

lemma agrees_fulfil:
  assumes "agrees ps a" and "i < length ps" and "ps ! i = Pending"
  shows "agrees (ps[i := Fulfilled v]) (resolveElement i v a)"
proof (rule agreesI)
  have cnt: "Suc (unfulfilled (ps[i := Fulfilled v])) = unfulfilled ps"
    using assms(2,3) by (rule unfulfilled_fulfil)
  have pos: "0 < all_remaining a" and notful: "\<And>w. all_result a \<noteq> Fulfilled w"
    using agrees_pending_member [OF assms] by auto
  note rem = resolveElement_remaining and vals = resolveElement_values
  show "length (all_values (resolveElement i v a)) = length (ps[i := Fulfilled v])"
    using assms(1) by (simp add: vals agrees_def)
  show "all_remaining (resolveElement i v a) = unfulfilled (ps[i := Fulfilled v])"
    using assms(1) cnt by (simp add: rem agrees_def)
  show "all_values (resolveElement i v a) ! k = x"
    if "k < length (ps[i := Fulfilled v])" and "ps[i := Fulfilled v] ! k = Fulfilled x" for k x
    using that assms(1,2) by (cases "k = i") (simp_all add: vals agrees_def)
  show "(\<forall>k<length (ps[i := Fulfilled v]). \<forall>e. ps[i := Fulfilled v] ! k \<noteq> Rejected e)
        \<and> 0 < all_remaining (resolveElement i v a)"
    if "all_result (resolveElement i v a) = Pending"
  proof -
    have p: "all_result a = Pending" and r: "all_remaining a - 1 \<noteq> 0"
      using that by (cases "all_result a"; simp add: resolveElement_def Let_def split: if_splits)+
    have "\<forall>k<length ps. \<forall>e. ps ! k \<noteq> Rejected e"
      using assms(1) p by (simp add: agrees_def)
    then show ?thesis using r assms(2) by (auto simp: rem nth_list_update)
  qed
  show "w = Arr (all_values (resolveElement i v a)) \<and> all_remaining (resolveElement i v a) = 0"
    if "all_result (resolveElement i v a) = Fulfilled w" for w
    using that notful
    by (cases "all_result a"; simp add: resolveElement_def Let_def split: if_splits)
  show "\<exists>k<length (ps[i := Fulfilled v]). ps[i := Fulfilled v] ! k = Rejected e"
    if "all_result (resolveElement i v a) = Rejected e" for e
  proof -
    have "all_result a = Rejected e"
      using that by (cases "all_result a"; simp add: resolveElement_def Let_def split: if_splits)
    then obtain j where "j < length ps" and "ps ! j = Rejected e"
      using assms(1) by (auto simp: agrees_def)
    then show ?thesis using assms(3) by (rule rejected_member_kept)
  qed
qed

lemma agrees_reject:
  assumes "agrees ps a" and "i < length ps" and "ps ! i = Pending"
  shows "agrees (ps[i := Rejected e]) (rejectElement e a)"
proof (rule agreesI)
  have cnt: "unfulfilled (ps[i := Rejected e]) = unfulfilled ps"
    using assms(2,3) by (rule unfulfilled_reject)
  have pos: "0 < all_remaining a" and notful: "\<And>w. all_result a \<noteq> Fulfilled w"
    using agrees_pending_member [OF assms] by auto
  show "length (all_values (rejectElement e a)) = length (ps[i := Rejected e])"
    using assms(1) by (simp add: rejectElement_def agrees_def)
  show "all_remaining (rejectElement e a) = unfulfilled (ps[i := Rejected e])"
    using assms(1) cnt by (simp add: rejectElement_def agrees_def)
  show "all_values (rejectElement e a) ! k = x"
    if "k < length (ps[i := Rejected e])" and "ps[i := Rejected e] ! k = Fulfilled x" for k x
    using that assms(1,2) by (cases "k = i") (simp_all add: rejectElement_def agrees_def)
  show "(\<forall>k<length (ps[i := Rejected e]). \<forall>e'. ps[i := Rejected e] ! k \<noteq> Rejected e')
        \<and> 0 < all_remaining (rejectElement e a)"
    if "all_result (rejectElement e a) = Pending"
    using that by (cases "all_result a"; simp add: rejectElement_def)
  show "w = Arr (all_values (rejectElement e a)) \<and> all_remaining (rejectElement e a) = 0"
    if "all_result (rejectElement e a) = Fulfilled w" for w
    using that notful by (cases "all_result a"; simp add: rejectElement_def)
  show "\<exists>k<length (ps[i := Rejected e]). ps[i := Rejected e] ! k = Rejected e'"
    if "all_result (rejectElement e a) = Rejected e'" for e'
  proof (cases "all_result a")
    case Pending
    then have "e' = e" using that by (simp add: rejectElement_def)
    then show ?thesis using assms(2) by (intro exI [of _ i]) simp
  next
    case (Fulfilled w)
    then show ?thesis using notful by simp
  next
    case (Rejected x)
    then have "all_result a = Rejected e'" using that by (simp add: rejectElement_def)
    then obtain j where "j < length ps" and "ps ! j = Rejected e'"
      using assms(1) by (auto simp: agrees_def)
    then show ?thesis using assms(3) by (rule rejected_member_kept)
  qed
qed

lemma agrees_notify:
  assumes "agrees ps a" "i < length ps" "ps ! i = Pending"
  shows "agrees (ps[i := p]) (notify i p a)"
proof (cases p)
  case Pending
  then have "ps[i := p] = ps" using assms(3) by (metis list_update_id)
  then show ?thesis using assms(1) Pending by simp
next
  case (Fulfilled v)
  then show ?thesis using assms agrees_fulfil by simp
next
  case (Rejected e)
  then show ?thesis using assms agrees_reject by simp
qed

lemma agrees_subscribe:
  "agrees (done @ replicate (length rest) Pending) a \<Longrightarrow>
   agrees (done @ rest) (subscribe (length done) rest a)"
proof (induction rest arbitrary: "done" a)
  case Nil
  then show ?case by simp
next
  case (Cons p ps)
  let ?l = "done @ replicate (length (p # ps)) Pending"
  have "agrees (?l[length done := p]) (notify (length done) p a)"
    using Cons.prems by (intro agrees_notify) (simp_all add: nth_append)
  moreover have "?l[length done := p] = (done @ [p]) @ replicate (length ps) Pending"
    by (simp add: list_update_append)
  ultimately have "agrees ((done @ [p]) @ ps) (subscribe (length (done @ [p])) ps (notify (length done) p a))"
    using Cons.IH[of "done @ [p]"] by simp
  then show ?case by simp
qed

lemma agrees_Promise_all: "agrees ps (Promise_all ps)"
proof -
  have "agrees ([] @ replicate (length ps) Pending)
     \<lparr>all_values = replicate (length ps) Undefined, all_remaining = length ps,
        all_result = (if ps = [] then Fulfilled (Arr []) else Pending)\<rparr>"
    by (auto simp: agrees_def unfulfilled_replicate)
  from agrees_subscribe[OF this] show ?thesis by (simp add: Promise_all_def)
qed

lemma deliver_shape:
  assumes "i < length (fetches s)" and "shape \<lparr>request = req, promise = Pending\<rparr> = shape (fetches s ! i)"
  shows "map shape (fetches (deliver i act req s)) = map shape (fetches s)"
proof -
  have "shape \<lparr>request = req, promise = p\<rparr> = shape (fetches s ! i)" for p
    using assms(2) by (simp add: shape_def)
  then show ?thesis
    using assms(1) by (simp add: deliver_def Let_def map_update list_update_same_conv)
qed

lemma step_shape: "map shape (fetches (step P s ev)) = map shape (fetches s)"
proof (cases ev)
  case (LoadEvent i st tx resp)
  show ?thesis
  proof (cases "hears s i")
    case True
    have "shape \<lparr>request = (request (fetches s ! i))\<lparr>status := st, statusText := tx,
              response := resp\<rparr>, promise = Pending\<rparr> = shape (fetches s ! i)"
      by (simp add: shape_def)
    then show ?thesis
      using True LoadEvent deliver_shape by (simp add: hears_def Let_def)
  next
    case False
    then show ?thesis using LoadEvent by simp
  qed
next
  case (ErrorEvent i)
  have "shape \<lparr>request = request (fetches s ! i), promise = Pending\<rparr> = shape (fetches s ! i)"
    by (simp add: shape_def)
  then show ?thesis
    using ErrorEvent deliver_shape by (simp add: hears_def)
next
  case (ProgressEvent i l t)
  then show ?thesis by (simp split: invocation.splits)
next
  case (CallOnProgress c)
  then show ?thesis by simp
next
  case (AssignProgressCallback c)
  then show ?thesis by simp
qed

lemma run_shape: "map shape (fetches (run P s evs)) = map shape (fetches s)"
  unfolding run_def by (induction evs arbitrary: s) (simp_all add: step_shape)

lemma run_length: "length (fetches (run P s evs)) = length (fetches s)"
  using run_shape [of P s evs] by (metis length_map)

lemma run_shape_nth:
  assumes "i < length (fetches s)"
  shows "shape (fetches (run P s evs) ! i) = shape (fetches s ! i)"
proof -
  have "map shape (fetches (run P s evs)) ! i = map shape (fetches s) ! i"
    by (simp add: run_shape)
  then show ?thesis using assms by (simp add: run_length)
qed




lemma loadAll_fetches:
  "fst (loadAll this xs) =
     map (\<lambda>(u, i). fileLoadingRequest this u (Number (Finite (of_nat i)))) (zip xs [0..<length xs])"
  by (simp add: loadAll_def Let_def)


lemma fileLoadingRequest_index: "index (request (fileLoadingRequest this u i)) = i"
  by (simp add: fileLoadingRequest_def Let_def new_XMLHttpRequest_def split: sum.splits)

lemma load_batch_start:
  assumes "load this (Arr xs) = Inr d"
  shows "batch_ok (start this d)" and "length (fetches (start this d)) = length xs"
    and "\<And>i. i < length xs \<Longrightarrow>
           fetches (start this d) ! i = fileLoadingRequest this (xs ! i) (Number (Finite (of_nat i)))"
proof -
  have d: "d = All (fst (loadAll this xs)) (Promise_all (map promise (fst (loadAll this xs))))"
    using assms by (auto simp: load_def loadAll_def Let_def)
  show "batch_ok (start this d)"
    by (simp add: d start_def batch_ok_def agrees_Promise_all)
  show "length (fetches (start this d)) = length xs"
    by (simp add: d start_def loadAll_fetches)
  show "fetches (start this d) ! i = fileLoadingRequest this (xs ! i) (Number (Finite (of_nat i)))"
    if "i < length xs" for i
    using that by (simp add: d start_def loadAll_fetches)
qed











subsection \<open>Concrete fetches\<close>

text \<open>
  What \<^verbatim>\<open>load\<close> builds for a JSON file and for a batch of a JSON file and a binary
  file, evaluated once for the examples below.
\<close>

lemma sample_single_json:
  "loadOne (constructor Undefined) (Str ''a.json'') =
     \<lparr>request = \<lparr>url = Str ''a.json'', index = Undefined,
                  request_responseType = Str ''json'', listening = True, sent = True,
                  status = 0, statusText = [], response = Str []\<rparr>,
      promise = Pending\<rparr>"
  by (simp add: loadOne_def fileLoadingRequest_def constructor_def suffix_def
      this_length_minus_def indexOf_def new_XMLHttpRequest_def)

lemma sample_batch:
  "load (onProgress (constructor Undefined) (Fn 1)) (Arr [Str ''a.json'', Str ''b.bin'']) =
     Inr (All
       [\<lparr>request = \<lparr>url = Str ''a.json'', index = Number (Finite 0),
                     request_responseType = Str ''json'', listening = True, sent = True,
                     status = 0, statusText = [], response = Str []\<rparr>,
         promise = Pending\<rparr>,
        \<lparr>request = \<lparr>url = Str ''b.bin'', index = Number (Finite 1),
                     request_responseType = Str ''arraybuffer'', listening = True, sent = True,
                     status = 0, statusText = [], response = Str []\<rparr>,
         promise = Pending\<rparr>]
       \<lparr>all_values = [Undefined, Undefined], all_remaining = 2, all_result = Pending\<rparr>)"
  by (simp add: load_def loadAll_def fileLoadingRequest_def constructor_def suffix_def
      this_length_minus_def indexOf_def new_XMLHttpRequest_def Promise_all_def upt_rec
      onProgress_def)


subsection \<open>How one fetch settles\<close>

















subsection \<open>A malformed structured-data payload\<close>

text \<open>
  C5. A request of type \<^verbatim>\<open>json\<close> completes with a success status and a text that the
  parser refuses. The parser's exception leaves the load listener: it is recorded as
  uncaught, and the promise of the fetch is not rejected with it but stays pending.
\<close>

theorem parse_failure_leaves_promise_pending:
  assumes "hears s i" and "promise (fetches s ! i) = Pending"
    and "request_responseType (request (fetches s ! i)) = Str ''json''"
    and "st = 200 \<or> st = 304 \<or> st = 0" and "JSON_parse t = Inl exn"
  shows "promise (fetches (step JSON_parse s (LoadEvent i st tx (Str t))) ! i) = Pending
       \<and> uncaught (step JSON_parse s (LoadEvent i st tx (Str t))) = uncaught s @ [exn]"
  using assms by (auto simp: hears_def load_listener_def deliver_def Let_def)

theorem parse_failure_leaves_promise_pending_witness:
  "hears (start (constructor Undefined)
            (One (loadOne (constructor Undefined) (Str ''a.json'')))) 0
   \<and> sample_parse ''{'' = Inl SyntaxErrorV
   \<and> promise (fetches (step sample_parse
         (start (constructor Undefined) (One (loadOne (constructor Undefined) (Str ''a.json''))))
         (LoadEvent 0 200 ''OK'' (Str ''{''))) ! 0) = Pending
   \<and> uncaught (step sample_parse
         (start (constructor Undefined) (One (loadOne (constructor Undefined) (Str ''a.json''))))
         (LoadEvent 0 200 ''OK'' (Str ''{''))) = [SyntaxErrorV]"
proof -
  let ?s = "start (constructor Undefined)
              (One (loadOne (constructor Undefined) (Str ''a.json'')))"
  have h: "hears ?s 0" "promise (fetches ?s ! 0) = Pending"
    "request_responseType (request (fetches ?s ! 0)) = Str ''json''"
    by (simp_all add: sample_single_json start_def hears_def)
  have p: "sample_parse ''{'' = Inl SyntaxErrorV" by (simp add: sample_parse_def)
  have u: "uncaught ?s = []" by (simp add: start_def)
  show ?thesis
    using parse_failure_leaves_promise_pending [where s = ?s and i = 0 and st = 200
        and JSON_parse = sample_parse and t = "''{''" and exn = SyntaxErrorV and tx = "''OK''"]
      h p u
    by simp
qed

subsection \<open>Progress notifications\<close>

lemma step_progress_calls:
  assumes "hears s i"
  shows "calls (step P s (ProgressEvent i l t)) =
      (case get_progressCallback (loader s) of
         Fn n \<Rightarrow> calls s @ [(Fn n, record_for s i l t)]
       | _ \<Rightarrow> calls s)"
  using assms
  by (simp add: progress_listener_def record_for_def js_div_def Let_def split: jsval.splits)

lemma step_progress_uncaught:
  assumes "hears s i"
  shows "uncaught (step P s (ProgressEvent i l t)) =
      (if truthy (get_progressCallback (loader s))
          \<and> (\<forall>n. get_progressCallback (loader s) \<noteq> Fn n)
       then uncaught s @ [TypeErrorV] else uncaught s)"
  using assms
  by (auto simp: progress_listener_def Let_def split: jsval.splits)

lemma start_index:
  assumes "load this v = Inr d" and "i < length (fetches (start this d))"
  shows "index (request (fetches (start this d) ! i)) =
           (case d of One f \<Rightarrow> Undefined | All fs a \<Rightarrow> Number (Finite (of_nat i)))"
proof (cases "isArray v")
  case True
  then obtain xs where v: "v = Arr xs" by (cases v) simp_all
  note st = load_batch_start [OF assms(1) [unfolded v]]
  have d: "\<exists>fs a. d = All fs a" using assms(1) v by (auto simp: load_def split: prod.splits)
  have "i < length xs" using assms(2) st(2) by simp
  then show ?thesis using st(3) d by (auto simp: fileLoadingRequest_index)
next
  case False
  then have "v \<noteq> Undefined" using assms(1) by (auto simp: load_def)
  then have d: "d = One (loadOne this v)"
    using load_non_array [OF _ False, of this] assms(1) by simp
  then show ?thesis using assms(2) by (simp add: start_def loadOne_def fileLoadingRequest_index)
qed

text \<open>
  C6, as stated, fails on the name of one property: the object handed to the callback
  has the quotient under \<^verbatim>\<open>value\<close>, and no property \<^verbatim>\<open>fraction\<close>.
\<close>

theorem progress_event_has_no_fraction:
  "calls (step sample_parse
            (start (onProgress (constructor Undefined) (Fn 1))
               (One (loadOne (onProgress (constructor Undefined) (Fn 1)) (Str ''a.bin''))))
            (ProgressEvent 0 5 10))
     = [(Fn 1, [(''value'', Number (Finite (1 / 2))), (''loaded'', Number (Finite 5)),
                (''total'', Number (Finite 10))])]
   \<and> map_of [(''value'', Number (Finite (1 / 2))), (''loaded'', Number (Finite 5)),
             (''total'', Number (Finite 10))] ''fraction'' = None
   \<and> map_of [(''value'', Number (Finite (1 / 2))), (''loaded'', Number (Finite 5)),
             (''total'', Number (Finite 10))] ''value'' = Some (Number (Finite (1 / 2)))"
  by (simp add: start_def loadOne_def fileLoadingRequest_def onProgress_def constructor_def
      suffix_def this_length_minus_def indexOf_def new_XMLHttpRequest_def hears_def
      progress_listener_def get_progressCallback_def js_div_def)

text \<open>
  C6, amended. After \<^verbatim>\<open>load\<close> and any events, a progress notification on a request
  that listens: if the slot holds a function, that function is called once, with the
  object \<^verbatim>\<open>{value: loaded / total, loaded, total}\<close>, the quotient being \<^verbatim>\<open>NaN\<close> for
  0/0 and \<^verbatim>\<open>Infinity\<close> for any other division by 0; the object has, as its last
  property, \<^verbatim>\<open>index\<close> with the member's position exactly when \<^verbatim>\<open>load\<close> was given an
  array, and no \<^verbatim>\<open>index\<close> for a single load. If the slot holds no function, nothing is
  called.
\<close>

theorem progress_event_record:
  assumes "load this v = Inr d" and "s = run JSON_parse (start this d) evs" and "hears s i"
  shows "(\<forall>n. get_progressCallback (loader s) = Fn n \<longrightarrow>
           calls (step JSON_parse s (ProgressEvent i evt_loaded evt_total)) =
             calls s @
             [(Fn n,
               [(''value'', Number (if evt_total = 0
                                    then (if evt_loaded = 0 then NaN else PosInf)
                                    else Finite (of_nat evt_loaded / of_nat evt_total))),
                (''loaded'', Number (Finite (of_nat evt_loaded))),
                (''total'', Number (Finite (of_nat evt_total)))]
               @ (case d of One f \<Rightarrow> []
                  | All fs a \<Rightarrow> [(''index'', Number (Finite (of_nat i)))]))])
       \<and> ((\<forall>n. get_progressCallback (loader s) \<noteq> Fn n) \<longrightarrow>
           calls (step JSON_parse s (ProgressEvent i evt_loaded evt_total)) = calls s)"
proof -
  have i: "i < length (fetches (start this d))"
    using assms(3) by (simp add: assms(2) hears_def run_length)
  then have "shape (fetches s ! i) = shape (fetches (start this d) ! i)"
    by (simp add: assms(2) run_shape_nth)
  then have "index (request (fetches s ! i)) =
      (case d of One f \<Rightarrow> Undefined | All fs a \<Rightarrow> Number (Finite (of_nat i)))"
    using start_index [OF assms(1) i] by (simp add: shape_def)
  then have r: "record_for s i evt_loaded evt_total =
      [(''value'', Number (if evt_total = 0
                           then (if evt_loaded = 0 then NaN else PosInf)
                           else Finite (of_nat evt_loaded / of_nat evt_total))),
       (''loaded'', Number (Finite (of_nat evt_loaded))),
       (''total'', Number (Finite (of_nat evt_total)))]
      @ (case d of One f \<Rightarrow> []
         | All fs a \<Rightarrow> [(''index'', Number (Finite (of_nat i)))])"
    by (cases d) (simp_all add: record_for_def)
  have c: "calls (step JSON_parse s (ProgressEvent i evt_loaded evt_total)) =
      (case get_progressCallback (loader s) of
         Fn n \<Rightarrow> calls s @ [(Fn n, record_for s i evt_loaded evt_total)]
       | _ \<Rightarrow> calls s)"
    using assms(3) by (rule step_progress_calls)
  show ?thesis
    unfolding c r by (cases "get_progressCallback (loader s)") simp_all
qed

theorem progress_event_record_witness:
  "\<exists>d. load (onProgress (constructor Undefined) (Fn 1)) (Arr [Str ''a.json'', Str ''b.bin''])
          = Inr d
      \<and> hears (run sample_parse (start (onProgress (constructor Undefined) (Fn 1)) d) []) 1
      \<and> calls (step sample_parse
                 (run sample_parse (start (onProgress (constructor Undefined) (Fn 1)) d) [])
                 (ProgressEvent 1 5 10))
          = [(Fn 1, [(''value'', Number (Finite (1 / 2))), (''loaded'', Number (Finite 5)),
                     (''total'', Number (Finite 10)), (''index'', Number (Finite 1))])]"
proof -
  let ?L = "onProgress (constructor Undefined) (Fn 1)"
  obtain d where d: "load ?L (Arr [Str ''a.json'', Str ''b.bin'']) = Inr d"
    using sample_batch by blast
  have h: "hears (run sample_parse (start ?L d) []) 1"
    using d unfolding sample_batch by (auto simp: run_def start_def hears_def)
  have c: "calls (run sample_parse (start ?L d) []) = []"
    and l: "get_progressCallback (loader (run sample_parse (start ?L d) [])) = Fn 1"
    and k: "\<exists>fs a. d = All fs a"
    using d unfolding sample_batch
    by (auto simp: run_def start_def onProgress_def get_progressCallback_def)
  show ?thesis
    using progress_event_record [OF d refl h, of 5 10] d h c l k
    by auto
qed

lemma hears_shape: "map shape (fetches s1) = map shape (fetches s2) \<Longrightarrow> hears s1 i = hears s2 i"
proof -
  assume m: "map shape (fetches s1) = map shape (fetches s2)"
  then have l: "length (fetches s1) = length (fetches s2)" by (metis length_map)
  have "i < length (fetches s2) \<Longrightarrow> shape (fetches s1 ! i) = shape (fetches s2 ! i)"
    using m l by (metis nth_map)
  then show ?thesis using l by (auto simp: hears_def shape_def)
qed

lemma record_for_shape:
  assumes "map shape (fetches s1) = map shape (fetches s2)" and "hears s2 i"
  shows "record_for s1 i l t = record_for s2 i l t"
proof -
  have l: "length (fetches s1) = length (fetches s2)" using assms(1) by (metis length_map)
  have "i < length (fetches s2)" using assms(2) by (simp add: hears_def)
  then have "shape (fetches s1 ! i) = shape (fetches s2 ! i)"
    using assms(1) l by (metis nth_map)
  then show ?thesis by (simp add: record_for_def shape_def)
qed

lemma notifications_shape:
  assumes "map shape (fetches s1) = map shape (fetches s2)"
  shows "notifications s1 evs = notifications s2 evs"
proof (induction evs)
  case Nil
  then show ?case by simp
next
  case (Cons e evs)
  then show ?case
    using hears_shape [OF assms] record_for_shape [OF assms]
    by (cases e) auto
qed

lemma step_loader: "\<not> registers ev \<Longrightarrow> loader (step P s ev) = loader s"
  by (cases ev) (auto simp: deliver_def Let_def split: invocation.splits)

lemma run_calls:
  assumes "get_progressCallback (loader s) = Fn n" and "\<forall>e\<in>set evs. \<not> registers e"
  shows "calls (run P s evs) = calls s @ map (Pair (Fn n)) (notifications s evs)"
  using assms
proof (induction evs arbitrary: s)
  case Nil
  then show ?case by (simp add: run_def)
next
  case (Cons ev evs)
  let ?s = "step P s ev"
  have nr: "\<not> registers ev" using Cons.prems(2) by simp
  then have ld: "loader ?s = loader s" by (rule step_loader)
  have nt: "notifications ?s evs = notifications s evs"
    by (rule notifications_shape) (rule step_shape)
  have ih: "calls (run P ?s evs) = calls ?s @ map (Pair (Fn n)) (notifications s evs)"
    using Cons.IH [of ?s] Cons.prems by (simp add: ld nt)
  have hd: "calls ?s = calls s @ map (Pair (Fn n)) (notifications s [ev])"
  proof (cases ev)
    case (ProgressEvent i l t)
    then show ?thesis
      using step_progress_calls [of s i P l t] Cons.prems(1) by (cases "hears s i") simp_all
  qed (auto simp: deliver_def Let_def)
  have "notifications s (ev # evs) = notifications s [ev] @ notifications s evs"
    by (cases ev) simp_all
  then show ?case using ih hd by (simp add: run_def)
qed

text \<open>
  C8. A function registered at any moment after dispatch, by either path, is not called
  at registration (no earlier notification is replayed) and is called for every later
  progress notification that reaches a listener, as long as nothing else is registered:
  the listener reads the slot when the notification fires.
\<close>

theorem late_registration_hears_later_events:
  assumes "reg = CallOnProgress (Fn n) \<or> reg = AssignProgressCallback (Fn n)"
    and "\<forall>e\<in>set evs. \<not> registers e"
  shows "calls (step JSON_parse s reg) = calls s
       \<and> calls (run JSON_parse (step JSON_parse s reg) evs) =
           calls s @ map (Pair (Fn n)) (notifications s evs)"
proof -
  let ?s = "step JSON_parse s reg"
  have cb: "get_progressCallback (loader ?s) = Fn n" and cl: "calls ?s = calls s"
    and sh: "map shape (fetches ?s) = map shape (fetches s)"
    using assms(1)
    by (auto simp: onProgress_def set_progressCallback_def get_progressCallback_def)
  show ?thesis
    using run_calls [OF cb assms(2), of JSON_parse] notifications_shape [OF sh, of evs]
    by (simp add: cl)
qed

theorem late_registration_hears_later_events_witness:
  "calls (run sample_parse (start (onProgress (constructor Undefined) (Fn 1))
                (One (loadOne (onProgress (constructor Undefined) (Fn 1)) (Str ''a.bin''))))
             [ProgressEvent 0 1 10])
     = [(Fn 1, [(''value'', Number (Finite (1 / 10))), (''loaded'', Number (Finite 1)),
                (''total'', Number (Finite 10))])]
   \<and> calls (run sample_parse
       (step sample_parse
          (run sample_parse (start (onProgress (constructor Undefined) (Fn 1))
                (One (loadOne (onProgress (constructor Undefined) (Fn 1)) (Str ''a.bin''))))
             [ProgressEvent 0 1 10])
          (CallOnProgress (Fn 2)))
       [ProgressEvent 0 5 10])
      = [(Fn 1, [(''value'', Number (Finite (1 / 10))), (''loaded'', Number (Finite 1)),
                 (''total'', Number (Finite 10))]),
         (Fn 2, [(''value'', Number (Finite (1 / 2))), (''loaded'', Number (Finite 5)),
                 (''total'', Number (Finite 10))])]"
proof -
  let ?L = "onProgress (constructor Undefined) (Fn 1)"
  let ?s = "run sample_parse (start ?L (One (loadOne ?L (Str ''a.bin''))))
             [ProgressEvent 0 1 10]"
  have f: "loadOne ?L (Str ''a.bin'') =
     \<lparr>request = \<lparr>url = Str ''a.bin'', index = Undefined,
                  request_responseType = Str ''arraybuffer'', listening = True, sent = True,
                  status = 0, statusText = [], response = Str []\<rparr>,
      promise = Pending\<rparr>"
    by (simp add: loadOne_def fileLoadingRequest_def constructor_def suffix_def
        this_length_minus_def indexOf_def new_XMLHttpRequest_def onProgress_def)
  have c: "calls ?s = [(Fn 1, [(''value'', Number (Finite (1 / 10))),
                (''loaded'', Number (Finite 1)), (''total'', Number (Finite 10))])]"
    and h: "hears ?s 0" and ix: "index (request (fetches ?s ! 0)) = Undefined"
    unfolding f
    by (simp_all add: run_def start_def hears_def progress_listener_def onProgress_def
        get_progressCallback_def constructor_def js_div_def)
  have n: "notifications ?s [ProgressEvent 0 5 10] =
      [[(''value'', Number (Finite (1 / 2))), (''loaded'', Number (Finite 5)),
        (''total'', Number (Finite 10))]]"
    using h ix by (simp add: record_for_def)
  have r: "\<forall>e\<in>set [ProgressEvent 0 5 10]. \<not> registers e" by simp
  show ?thesis
    using late_registration_hears_later_events [of "CallOnProgress (Fn 2)" 2
        "[ProgressEvent 0 5 10]" sample_parse ?s] r
    unfolding n c by simp
qed

end
